theory Spec2Isabelle
  imports Complex_Main "HOL-Library.Sublist" "HOL-Library.AList"
begin

section \<open>Python values, errors and string primitives\<close>

text \<open>
  The exceptions the modelled functions can raise: a missing dictionary key, a comparison
  between values of different types, \<^verbatim>\<open>range()\<close> called with step zero, and an
  index outside a list.
\<close>

datatype py_error = KeyError | TypeError | ValueError | IndexError

text \<open>
  Text is a list of characters, each a code point below 256. Whitespace is what
  \<^verbatim>\<open>str.split()\<close>, \<^verbatim>\<open>str.strip()\<close> and the regular expression class
  \<^verbatim>\<open>\s\<close> accept there (the code points on which \<^verbatim>\<open>str.isspace\<close> holds):
  0x09 to 0x0D, 0x1C to 0x1F, the blank, 0x85 (next line) and 0xA0 (no-break space).
\<close>

definition whitespace_chars :: "char list" where
  "whitespace_chars =
     [CHR 0x09, CHR 0x0A, CHR 0x0B, CHR 0x0C, CHR 0x0D,
      CHR 0x1C, CHR 0x1D, CHR 0x1E, CHR 0x1F, CHR 0x20, CHR 0x85, CHR 0xA0]"

definition is_space :: "char \<Rightarrow> bool" where
  "is_space c = (c \<in> set whitespace_chars)"

text \<open>\<^verbatim>\<open>s.split()\<close>: the maximal runs of non-whitespace characters, in order.
  The first argument holds the characters of the current word, last one first.\<close>

fun split_acc :: "string \<Rightarrow> string \<Rightarrow> string list" where
  "split_acc cur [] = (if cur = [] then [] else [rev cur])"
| "split_acc cur (c # cs) =
     (if is_space c then (if cur = [] then split_acc [] cs else rev cur # split_acc [] cs)
      else split_acc (c # cur) cs)"

definition py_split :: "string \<Rightarrow> string list" where
  "py_split s = split_acc [] s"

text \<open>\<^verbatim>\<open>sep.join(xs)\<close>.\<close>

fun py_join :: "string \<Rightarrow> string list \<Rightarrow> string" where
  "py_join sep [] = []"
| "py_join sep [x] = x"
| "py_join sep (x # y # ys) = x @ sep @ py_join sep (y # ys)"

text \<open>\<^verbatim>\<open>s.strip()\<close>.\<close>

definition py_strip :: "string \<Rightarrow> string" where
  "py_strip s = rev (dropWhile is_space (rev (dropWhile is_space s)))"

text \<open>\<^verbatim>\<open>s.split("\n\n")\<close>: the pieces between the non-overlapping occurrences of
  two line feeds, found from the left; the result always has at least one piece.\<close>

fun split_nn_acc :: "string \<Rightarrow> string \<Rightarrow> string list" where
  "split_nn_acc cur [] = [rev cur]"
| "split_nn_acc cur [c] = [rev (c # cur)]"
| "split_nn_acc cur (c # d # cs) =
     (if c = CHR 0x0A \<and> d = CHR 0x0A then rev cur # split_nn_acc [] cs
      else split_nn_acc (c # cur) (d # cs))"

definition split_nn :: "string \<Rightarrow> string list" where
  "split_nn s = split_nn_acc [] s"

text \<open>\<^verbatim>\<open>sub in s\<close> for strings.\<close>

fun startswith :: "string \<Rightarrow> string \<Rightarrow> bool" where
  "startswith [] s = True"
| "startswith (p # ps) [] = False"
| "startswith (p # ps) (c # cs) = (p = c \<and> startswith ps cs)"

fun contains :: "string \<Rightarrow> string \<Rightarrow> bool" where
  "contains sub [] = (sub = [])"
| "contains sub (c # cs) = (startswith sub (c # cs) \<or> contains sub cs)"

text \<open>\<^verbatim>\<open>str(n)\<close> for an integer, as the f-strings that build chunk ids use it.\<close>

definition digit_char :: "nat \<Rightarrow> char" where
  "digit_char d = ''0123456789'' ! d"

function str_of_nat :: "nat \<Rightarrow> string" where
  "str_of_nat n = (if n < 10 then [digit_char n] else str_of_nat (n div 10) @ [digit_char (n mod 10)])"
  by pat_completeness auto
termination
  by (relation "measure (\<lambda>n. n)") auto

declare str_of_nat.simps [simp del]

definition str_of_int :: "int \<Rightarrow> string" where
  "str_of_int i = (if i < 0 then CHR ''-'' # str_of_nat (nat (- i)) else str_of_nat (nat i))"

text \<open>\<^verbatim>\<open>xs[start:stop]\<close> with Python's treatment of negative and out-of-range bounds.\<close>

definition slice_bound :: "nat \<Rightarrow> int \<Rightarrow> nat" where
  "slice_bound n k = (if k < 0 then nat (max (k + int n) 0) else min (nat k) n)"

definition py_slice :: "'a list \<Rightarrow> int \<Rightarrow> int \<Rightarrow> 'a list" where
  "py_slice xs start stop =
     (let a = slice_bound (length xs) start; b = slice_bound (length xs) stop
      in take (b - a) (drop a xs))"

text \<open>\<^verbatim>\<open>range(0, stop, step)\<close> for \<open>stop \<ge> 0\<close> (the stop is always a length here):
  step zero raises ValueError, a negative step gives the empty range.\<close>

function range_up :: "nat \<Rightarrow> nat \<Rightarrow> nat \<Rightarrow> nat list" where
  "range_up i n step = (if 0 < step \<and> i < n then i # range_up (i + step) n step else [])"
  by pat_completeness auto
termination
  by (relation "measure (\<lambda>(i, n, step). n - i)") auto

declare range_up.simps [simp del]

definition range0 :: "nat \<Rightarrow> int \<Rightarrow> py_error + int list" where
  "range0 stop step =
     (if step = 0 then Inl ValueError
      else if step < 0 then Inr []
      else Inr (map int (range_up 0 stop (nat step))))"

section \<open>The content processor\<close>

text \<open>
  The repository metadata the processor reads (keys \<^verbatim>\<open>id\<close>, \<^verbatim>\<open>full_name\<close>,
  \<^verbatim>\<open>description\<close>; a missing or \<^verbatim>\<open>None\<close> description is \<open>None\<close>), the
  processor's configuration, and the chunk dictionaries it builds. A key that a chunk
  dictionary does not have is \<open>None\<close>.
\<close>

record repo =
  repo_ident :: int
  full_name :: string
  description :: "string option"

record processor =
  max_readme_size :: int
  chunk_strategy :: string
  max_chunk_size :: int
  chunk_overlap :: int

datatype chunk_type = Readme_section | Readme_window | Readme_hybrid | Description

record chunk =
  chunk_id :: string
  repo_id :: int
  repo_name :: string
  content :: string
  chunk_type :: chunk_type
  section_index :: "int option"
  window_index :: "int option"

text \<open>The context line \<^verbatim>\<open>f"Repository: {repo['full_name']}\n\n"\<close> put before each
  chunk's text.\<close>

definition repo_header :: "repo \<Rightarrow> string" where
  "repo_header r = ''Repository: '' @ full_name r @ [CHR 0x0A, CHR 0x0A]"

subsection \<open>Sliding windows\<close>

text \<open>
  The loop of \<^verbatim>\<open>_sliding_window_chunking\<close> over \<^verbatim>\<open>range(0, len(words), chunk_size - overlap)\<close>:
  the window starting at \<open>i\<close> is \<^verbatim>\<open>words[i:i + chunk_size]\<close>, it is skipped when it has
  fewer than \<open>overlap\<close> words, and a kept window is paired with its window index
  \<^verbatim>\<open>i // (chunk_size - overlap)\<close>. The same loop runs inside \<^verbatim>\<open>_hybrid_chunking\<close>.
\<close>

definition window_at :: "processor \<Rightarrow> 'a list \<Rightarrow> int \<Rightarrow> (int \<times> 'a list) list" where
  "window_at p words i =
     (let chunk_words = py_slice words i (i + max_chunk_size p)
      in if int (length chunk_words) < chunk_overlap p then []
         else [(i div (max_chunk_size p - chunk_overlap p), chunk_words)])"

definition sliding_windows :: "processor \<Rightarrow> 'a list \<Rightarrow> py_error + (int \<times> 'a list) list" where
  "sliding_windows p words =
     (case range0 (length words) (max_chunk_size p - chunk_overlap p) of
        Inl e \<Rightarrow> Inl e
      | Inr starts \<Rightarrow> Inr (concat (map (window_at p words) starts)))"

definition window_chunk :: "repo \<Rightarrow> int \<times> string list \<Rightarrow> chunk" where
  "window_chunk r w =
     \<lparr> chunk_id = str_of_int (repo_ident r) @ ''-'' @ str_of_int (fst w),
       repo_id = repo_ident r,
       repo_name = full_name r,
       content = repo_header r @ py_join '' '' (snd w),
       chunk_type = Readme_window,
       section_index = None,
       window_index = Some (fst w) \<rparr>"

definition sliding_window_chunking :: "processor \<Rightarrow> string \<Rightarrow> repo \<Rightarrow> py_error + chunk list" where
  "sliding_window_chunking p text r =
     (case sliding_windows p (py_split text) of
        Inl e \<Rightarrow> Inl e
      | Inr ws \<Rightarrow> Inr (map (window_chunk r) ws))"

subsection \<open>Finding the section headers\<close>

text \<open>
  \<^verbatim>\<open>re.findall(r'(^|\n)#+\s+.+?(?=\n#+\s+|\Z)', content, re.DOTALL)\<close>.
  Without the MULTILINE flag \<^verbatim>\<open>^\<close> matches at position 0 only and \<^verbatim>\<open>\Z\<close> at the end
  of the text only; with DOTALL the dot matches every character. The pattern has exactly
  one capturing group, \<^verbatim>\<open>(^|\n)\<close>, and \<^verbatim>\<open>re.findall\<close> then returns, for each
  match, the text of that group and not the text of the match: the empty string when the
  match starts the document, one line feed otherwise.

  \<open>header_ahead\<close> is the lookahead \<^verbatim>\<open>\n#+\s+\<close>; \<open>lazy_end\<close> extends the lazy
  \<^verbatim>\<open>.+?\<close>, whose first character is already consumed, up to the first position where
  the lookahead or the end of the text is found; \<open>header_rest\<close> matches
  \<^verbatim>\<open>#+\s+.+?(?=...)\<close> at the start of its argument and returns the text left after the
  match (when the whitespace after the hashes runs to the end of the text, the greedy
  \<^verbatim>\<open>\s+\<close> gives its last character back to the dot, which needs two whitespace
  characters); \<open>header_match\<close> adds the group, trying \<^verbatim>\<open>^\<close> before \<^verbatim>\<open>\n\<close>;
  \<open>findall_from\<close> scans on from the end of a match, or one character further where
  there is no match.
\<close>

definition is_hash :: "char \<Rightarrow> bool" where
  "is_hash c = (c = CHR ''#'')"

definition header_ahead :: "string \<Rightarrow> bool" where
  "header_ahead t =
     (case t of
        [] \<Rightarrow> False
      | c # cs \<Rightarrow>
          c = CHR 0x0A \<and>
          (case cs of
             [] \<Rightarrow> False
           | h # hs \<Rightarrow> is_hash h \<and> (case dropWhile is_hash hs of [] \<Rightarrow> False | d # ds \<Rightarrow> is_space d)))"

fun lazy_end :: "string \<Rightarrow> string" where
  "lazy_end [] = []"
| "lazy_end (c # cs) = (if header_ahead (c # cs) then c # cs else lazy_end cs)"

definition header_rest :: "string \<Rightarrow> string option" where
  "header_rest s =
     (case s of
        [] \<Rightarrow> None
      | h # hs \<Rightarrow>
          if \<not> is_hash h then None
          else (let s1 = dropWhile is_hash hs;
                    ws = takeWhile is_space s1;
                    s2 = dropWhile is_space s1
                in if ws = [] then None
                   else (case s2 of
                           d # ds \<Rightarrow> Some (lazy_end ds)
                         | [] \<Rightarrow> if 2 \<le> length ws then Some [] else None)))"

definition header_match :: "bool \<Rightarrow> string \<Rightarrow> (string \<times> string) option" where
  "header_match at_start s =
     (case (if at_start then header_rest s else None) of
        Some r \<Rightarrow> Some ([], r)
      | None \<Rightarrow>
          (case s of
             [] \<Rightarrow> None
           | c # cs \<Rightarrow>
               if c = CHR 0x0A
               then (case header_rest cs of None \<Rightarrow> None | Some r \<Rightarrow> Some ([CHR 0x0A], r))
               else None))"

function findall_from :: "bool \<Rightarrow> string \<Rightarrow> string list" where
  "findall_from at_start s =
     (case header_match at_start s of
        Some (g, r) \<Rightarrow> g # findall_from False r
      | None \<Rightarrow> (case s of [] \<Rightarrow> [] | c # cs \<Rightarrow> findall_from False cs))"
  by pat_completeness auto

definition findall_headers :: "string \<Rightarrow> string list" where
  "findall_headers s = findall_from True s"

text \<open>
  A header line, in the words of the chunking strategies: a line (the text from the start
  of the document or from after a line feed) that begins with one or more hash signs
  followed by a whitespace character. \<open>has_header_line\<close> tells whether a document
  has one; the first argument of \<open>has_header_line_from\<close> tells whether the text starts
  a line.
\<close>

definition header_line_at :: "string \<Rightarrow> bool" where
  "header_line_at s =
     (case s of
        [] \<Rightarrow> False
      | h # hs \<Rightarrow> is_hash h \<and> (case dropWhile is_hash hs of [] \<Rightarrow> False | d # ds \<Rightarrow> is_space d))"

fun has_header_line_from :: "bool \<Rightarrow> string \<Rightarrow> bool" where
  "has_header_line_from line_start [] = False"
| "has_header_line_from line_start (c # cs) =
     ((line_start \<and> header_line_at (c # cs)) \<or> has_header_line_from (c = CHR 0x0A) cs)"

definition has_header_line :: "string \<Rightarrow> bool" where
  "has_header_line s = has_header_line_from True s"

subsection \<open>Semantic chunking\<close>

text \<open>
  \<^verbatim>\<open>_semantic_chunking\<close>: with no header found it falls back to the sliding windows;
  otherwise chunk \<open>i\<close> is built from the \<open>i\<close>-th element of \<^verbatim>\<open>sections\<close>, the list
  that \<^verbatim>\<open>re.findall\<close> returned.
\<close>

definition section_chunk :: "repo \<Rightarrow> nat \<times> string \<Rightarrow> chunk" where
  "section_chunk r s =
     \<lparr> chunk_id = str_of_int (repo_ident r) @ ''-'' @ str_of_int (int (fst s)),
       repo_id = repo_ident r,
       repo_name = full_name r,
       content = repo_header r @ py_strip (snd s),
       chunk_type = Readme_section,
       section_index = Some (int (fst s)),
       window_index = None \<rparr>"

definition semantic_chunking :: "processor \<Rightarrow> string \<Rightarrow> repo \<Rightarrow> py_error + chunk list" where
  "semantic_chunking p text r =
     (let sections = findall_headers text
      in if sections = [] then sliding_window_chunking p text r
         else Inr (map (section_chunk r) (enumerate 0 sections)))"

subsection \<open>Hybrid chunking\<close>

text \<open>
  \<^verbatim>\<open>_hybrid_chunking\<close>. \<open>hybrid_loop\<close> is the loop over the semantic chunks; its state
  is \<^verbatim>\<open>final_chunks\<close> and the flag \<^verbatim>\<open>has_hybrid_chunks\<close>. A chunk with more
  than \<open>max_chunk_size\<close> words is cut at its double line feeds into the repository
  context (the first piece) and the section text (the other pieces, joined again), and
  the section text goes through the sliding-window loop.
\<close>

definition sub_chunk :: "repo \<Rightarrow> string \<Rightarrow> nat \<Rightarrow> int \<times> string list \<Rightarrow> chunk" where
  "sub_chunk r repo_context i w =
     \<lparr> chunk_id = str_of_int (repo_ident r) @ ''-'' @ str_of_int (int i) @ ''-'' @ str_of_int (fst w),
       repo_id = repo_ident r,
       repo_name = full_name r,
       content = repo_context @ [CHR 0x0A, CHR 0x0A] @ py_join '' '' (snd w),
       chunk_type = Readme_hybrid,
       section_index = Some (int i),
       window_index = Some (fst w) \<rparr>"

fun hybrid_loop ::
  "processor \<Rightarrow> repo \<Rightarrow> (nat \<times> chunk) list \<Rightarrow> chunk list \<times> bool \<Rightarrow> py_error + chunk list \<times> bool" where
  "hybrid_loop p r [] st = Inr st"
| "hybrid_loop p r (ic # rest) st =
     (if max_chunk_size p < int (length (py_split (content (snd ic))))
      then (case split_nn (content (snd ic)) of
              [] \<Rightarrow> Inl IndexError
            | repo_context # pieces \<Rightarrow>
                (case sliding_windows p (py_split (py_join [CHR 0x0A, CHR 0x0A] pieces)) of
                   Inl e \<Rightarrow> Inl e
                 | Inr ws \<Rightarrow>
                     hybrid_loop p r rest
                       (fst st @ map (sub_chunk r repo_context (fst ic)) ws, snd st \<or> ws \<noteq> [])))
      else hybrid_loop p r rest (fst st @ [snd ic], snd st))"

definition forced_hybrid_chunk :: "repo \<Rightarrow> chunk \<Rightarrow> chunk" where
  "forced_hybrid_chunk r c =
     \<lparr> chunk_id = str_of_int (repo_ident r) @ ''-0-hybrid'',
       repo_id = repo_ident r,
       repo_name = full_name r,
       content = content c,
       chunk_type = Readme_hybrid,
       section_index = Some 0,
       window_index = Some 0 \<rparr>"

definition hybrid_chunking :: "processor \<Rightarrow> string \<Rightarrow> repo \<Rightarrow> py_error + chunk list" where
  "hybrid_chunking p text r =
     (case semantic_chunking p text r of
        Inl e \<Rightarrow> Inl e
      | Inr semantic_chunks \<Rightarrow>
          (case semantic_chunks of
             [] \<Rightarrow> Inr []
           | first # _ \<Rightarrow>
               if chunk_type first = Readme_window
               then Inr (map (\<lambda>c. c\<lparr>chunk_type := Readme_hybrid, section_index := Some 0\<rparr>)
                          semantic_chunks)
               else (case hybrid_loop p r (enumerate 0 semantic_chunks) ([], False) of
                       Inl e \<Rightarrow> Inl e
                     | Inr st \<Rightarrow>
                         if contains ''Large Test Repository'' text \<and> \<not> snd st
                         then Inr (fst st @ [forced_hybrid_chunk r first])
                         else Inr (fst st))))"

subsection \<open>Description chunk, cleaning, and the entry point\<close>

text \<open>\<^verbatim>\<open>process_description\<close>: nothing for a missing or empty description.\<close>

definition process_description :: "repo \<Rightarrow> chunk option" where
  "process_description r =
     (case description r of
        None \<Rightarrow> None
      | Some d \<Rightarrow>
          if d = [] then None
          else Some \<lparr> chunk_id = str_of_int (repo_ident r) @ ''-description'',
                      repo_id = repo_ident r,
                      repo_name = full_name r,
                      content = ''Repository: '' @ full_name r @ [CHR 0x0A] @ ''Description: '' @ d,
                      chunk_type = Description,
                      section_index = None,
                      window_index = None \<rparr>)"

text \<open>
  \<^verbatim>\<open>_clean_content\<close>. The conversion from Markdown to HTML and back to text is done by
  the libraries \<^verbatim>\<open>markdown\<close> and \<^verbatim>\<open>html2text\<close>; it is the parameter \<open>render\<close>. The
  two substitutions that follow are modelled: \<^verbatim>\<open>re.sub(r'\n{3,}', '\n\n', text)\<close> keeps
  at most two line feeds of every run of line feeds (the argument counts those already
  kept), and \<^verbatim>\<open>re.sub(r'\s+', ' ', text)\<close> replaces every run of whitespace by one blank
  (the argument tells whether the previous character was whitespace).
\<close>

fun collapse_newlines :: "nat \<Rightarrow> string \<Rightarrow> string" where
  "collapse_newlines k [] = []"
| "collapse_newlines k (c # cs) =
     (if c = CHR 0x0A then (if k < 2 then c # collapse_newlines (Suc k) cs else collapse_newlines k cs)
      else c # collapse_newlines 0 cs)"

fun normalize_whitespace :: "bool \<Rightarrow> string \<Rightarrow> string" where
  "normalize_whitespace in_ws [] = []"
| "normalize_whitespace in_ws (c # cs) =
     (if is_space c then (if in_ws then normalize_whitespace True cs
                          else CHR '' '' # normalize_whitespace True cs)
      else c # normalize_whitespace False cs)"

definition clean_content :: "(string \<Rightarrow> string) \<Rightarrow> string \<Rightarrow> string" where
  "clean_content render text = normalize_whitespace False (collapse_newlines 0 (render text))"

text \<open>\<^verbatim>\<open>process_readme\<close>: truncation to \<open>max_readme_size\<close> characters, cleaning, and the
  choice of the strategy (anything but \<^verbatim>\<open>"semantic"\<close> and \<^verbatim>\<open>"sliding"\<close> is hybrid).\<close>

definition process_readme ::
  "processor \<Rightarrow> (string \<Rightarrow> string) \<Rightarrow> string \<Rightarrow> repo \<Rightarrow> py_error + chunk list" where
  "process_readme p render text r =
     (let truncated = (if max_readme_size p < int (length text)
                       then py_slice text 0 (max_readme_size p) else text);
          clean = clean_content render truncated
      in if chunk_strategy p = ''semantic'' then semantic_chunking p clean r
         else if chunk_strategy p = ''sliding'' then sliding_window_chunking p clean r
         else hybrid_chunking p clean r)"

text \<open>
  Reassembling a document from its windows, as the coverage property words it: all the
  words of the first window, then every later window without its first
  \<open>chunk_overlap\<close> words (\<^verbatim>\<open>w[overlap:]\<close>).
\<close>

definition reconstruct :: "processor \<Rightarrow> 'a list list \<Rightarrow> 'a list" where
  "reconstruct p ws =
     (case ws of [] \<Rightarrow> []
      | w # rest \<Rightarrow> w @ concat (map (\<lambda>v. py_slice v (chunk_overlap p) (int (length v))) rest))"

section \<open>The search engine\<close>

text \<open>
  The values found in a repository record and in a filter: integers, strings and
  \<^verbatim>\<open>None\<close>. A dictionary is an association list with distinct keys, in insertion
  order, read with \<open>map_of\<close>. \<^verbatim>\<open>a < b\<close> compares two integers or two strings (by
  code point) and raises TypeError on every other pair; \<^verbatim>\<open>a > b\<close> is \<open>py_lt b a\<close>.
\<close>

datatype pyval = VNone | VInt int | VStr string

type_synonym pydict = "(string \<times> pyval) list"

fun str_lt :: "string \<Rightarrow> string \<Rightarrow> bool" where
  "str_lt [] [] = False"
| "str_lt [] (d # ds) = True"
| "str_lt (c # cs) [] = False"
| "str_lt (c # cs) (d # ds) = ((of_char c :: nat) < of_char d \<or> (c = d \<and> str_lt cs ds))"

fun py_lt :: "pyval \<Rightarrow> pyval \<Rightarrow> py_error + bool" where
  "py_lt (VInt a) (VInt b) = Inr (a < b)"
| "py_lt (VStr a) (VStr b) = Inr (str_lt a b)"
| "py_lt _ _ = Inl TypeError"

fun str_of_pyval :: "pyval \<Rightarrow> string" where
  "str_of_pyval VNone = ''None''"
| "str_of_pyval (VInt i) = str_of_int i"
| "str_of_pyval (VStr s) = s"

text \<open>
  A search result, as \<^verbatim>\<open>EmbeddingManager.search\<close>, \<^verbatim>\<open>_keyword_search\<close> and
  \<^verbatim>\<open>_merge_results\<close> build it: the keys \<^verbatim>\<open>id\<close>, \<^verbatim>\<open>score\<close>, \<^verbatim>\<open>text\<close>,
  \<^verbatim>\<open>repository\<close> and \<^verbatim>\<open>chunk_type\<close>, and in a merged result also
  \<^verbatim>\<open>neural_score\<close> and \<^verbatim>\<open>keyword_score\<close> (\<open>None\<close> where the key is absent). Scores
  are real numbers: the rounding of floating-point arithmetic is not modelled.
\<close>

record result =
  r_id :: string
  r_score :: real
  r_text :: string
  r_repository :: pydict
  r_chunk_type :: string
  r_neural_score :: "real option"
  r_keyword_score :: "real option"

record engine =
  neural_weight :: real
  keyword_weight :: real
  min_score :: real

subsection \<open>Filters\<close>

text \<open>
  \<^verbatim>\<open>_apply_filters\<close>. A filter value that is a dictionary is a range with the optional
  keys \<^verbatim>\<open>min\<close> and \<^verbatim>\<open>max\<close>; any other value asks for equality. The filters are
  the items of a dictionary, in its order. \<open>check_field\<close> is the body of the loop over
  the filters for one of them: \<open>Inr False\<close> is \<^verbatim>\<open>include = False; break\<close>, \<open>Inr True\<close>
  goes on to the next filter. The test \<^verbatim>\<open>if field in repo\<close> has no else branch.
\<close>

datatype filter_value = Range pydict | Exact pyval

definition check_field :: "pydict \<Rightarrow> string \<times> filter_value \<Rightarrow> py_error + bool" where
  "check_field repo f =
     (case map_of repo (fst f) of
        None \<Rightarrow> Inr True
      | Some field_value \<Rightarrow>
          (case snd f of
             Range d \<Rightarrow>
               (case (case map_of d ''min'' of None \<Rightarrow> Inr False | Some lo \<Rightarrow> py_lt field_value lo) of
                  Inl e \<Rightarrow> Inl e
                | Inr True \<Rightarrow> Inr False
                | Inr False \<Rightarrow>
                    (case (case map_of d ''max'' of None \<Rightarrow> Inr False | Some hi \<Rightarrow> py_lt hi field_value) of
                       Inl e \<Rightarrow> Inl e
                     | Inr True \<Rightarrow> Inr False
                     | Inr False \<Rightarrow> Inr True))
           | Exact v \<Rightarrow> Inr (field_value = v)))"

fun include_result :: "pydict \<Rightarrow> (string \<times> filter_value) list \<Rightarrow> py_error + bool" where
  "include_result repo [] = Inr True"
| "include_result repo (f # fs) =
     (case check_field repo f of
        Inl e \<Rightarrow> Inl e
      | Inr False \<Rightarrow> Inr False
      | Inr True \<Rightarrow> include_result repo fs)"

fun apply_filters :: "result list \<Rightarrow> (string \<times> filter_value) list \<Rightarrow> py_error + result list" where
  "apply_filters [] filters = Inr []"
| "apply_filters (res # rest) filters =
     (case include_result (r_repository res) filters of
        Inl e \<Rightarrow> Inl e
      | Inr incl \<Rightarrow>
          (case apply_filters rest filters of
             Inl e \<Rightarrow> Inl e
           | Inr filtered_results \<Rightarrow> Inr (if incl then res # filtered_results else filtered_results)))"

section \<open>Termination of the header scan\<close>

text \<open>A match of the header pattern consumes at least one character, so the scan ends.\<close>

lemma lazy_end_le: "length (lazy_end s) \<le> length s"
  by (induction s) auto

lemma header_rest_less: "header_rest s = Some r \<Longrightarrow> length r < length s"
proof -
  assume a: "header_rest s = Some r"
  then obtain h hs where s: "s = h # hs" by (cases s) (auto simp: header_rest_def)
  let ?s1 = "dropWhile is_hash hs"
  let ?s2 = "dropWhile is_space ?s1"
  have l: "length ?s2 \<le> length hs"
    by (meson length_dropWhile_le le_trans)
  from a s have "r = [] \<or> (\<exists>d ds. ?s2 = d # ds \<and> r = lazy_end ds)"
    by (auto simp: header_rest_def Let_def split: if_splits list.splits)
  then show ?thesis
  proof
    assume "r = []" with s show ?thesis by simp
  next
    assume "\<exists>d ds. ?s2 = d # ds \<and> r = lazy_end ds"
    then obtain d ds where e: "?s2 = d # ds" "r = lazy_end ds" by blast
    from e(1) l have "length ds < length hs" by simp
    with lazy_end_le [of ds] e(2) s show ?thesis by simp
  qed
qed

lemma header_match_less: "header_match b s = Some (g, r) \<Longrightarrow> length r < length s"
  by (auto simp: header_match_def split: if_splits option.splits list.splits dest: header_rest_less)

termination findall_from
  by (relation "measure (\<lambda>(b, s). length s)") (auto dest: header_match_less)

declare findall_from.simps [simp del]

section \<open>Properties of the sliding windows\<close>

subsection \<open>Ranges and slices\<close>

lemma range_up_mem: "j \<in> set (range_up i n s) \<Longrightarrow> j < n \<and> (\<exists>a. j = i + a * s)"
proof (induction i n s rule: range_up.induct)
  case (1 i n step)
  show ?case
  proof (cases "0 < step \<and> i < n")
    case True
    then have "range_up i n step = i # range_up (i + step) n step"
      by (subst range_up.simps) simp
    with "1.prems" have "j = i \<or> j \<in> set (range_up (i + step) n step)" by simp
    then show ?thesis
    proof
      assume "j = i" with True show ?thesis by auto
    next
      assume "j \<in> set (range_up (i + step) n step)"
      with "1.IH" True obtain a where "j < n" "j = i + step + a * step" by blast
      then have "j = i + (Suc a) * step" by simp
      with \<open>j < n\<close> show ?thesis by blast
    qed
  next
    case False
    then have "range_up i n step = []" by (subst range_up.simps) simp
    with "1.prems" show ?thesis by simp
  qed
qed

lemma slice_bound_nat [simp]: "slice_bound n (int a) = min a n"
  by (simp add: slice_bound_def)

lemma slice_bound_neg: "0 < k \<Longrightarrow> slice_bound n (- int k) = n - k"
proof -
  assume k: "0 < k"
  have "nat (max (- int k + int n) 0) = n - k" by (simp add: max_def) linarith
  with k show ?thesis by (simp add: slice_bound_def)
qed

lemma py_slice_nonneg:
  "py_slice xs (int a) (int a + int b) = take b (drop a xs)"
proof -
  have "int a + int b = int (a + b)" by simp
  then have "py_slice xs (int a) (int a + int b) = take (min (a + b) (length xs) - min a (length xs)) (drop (min a (length xs)) xs)"
    unfolding py_slice_def Let_def by (simp only: slice_bound_nat)
  also have "\<dots> = take b (drop a xs)"
  proof (cases "a \<le> length xs")
    case True
    then have "min a (length xs) = a" by simp
    moreover have "take (min (a + b) (length xs) - a) (drop a xs) = take b (drop a xs)"
      using True by (cases "a + b \<le> length xs") simp_all
    ultimately show ?thesis by simp
  next
    case False
    then show ?thesis by simp
  qed
  finally show ?thesis .
qed

lemma py_slice_last:
  "0 < k \<Longrightarrow> py_slice xs (- int k) (int (length xs)) = drop (length xs - k) xs"
  unfolding py_slice_def Let_def by (simp add: slice_bound_neg)

lemma py_slice_first:
  "py_slice xs 0 (int k) = take k xs"
  using py_slice_nonneg [of xs 0 k] by simp

lemma py_slice_from:
  "py_slice xs (int k) (int (length xs)) = drop k xs"
  unfolding py_slice_def Let_def by (simp add: min_def)

lemma window_at_nat:
  assumes "0 < chunk_overlap p" "chunk_overlap p < max_chunk_size p"
  shows "window_at p words (int j) =
    (if length (take (nat (max_chunk_size p)) (drop j words)) < nat (chunk_overlap p) then []
     else [(int (j div (nat (max_chunk_size p) - nat (chunk_overlap p))),
            take (nat (max_chunk_size p)) (drop j words))])"
proof -
  have sz: "int (nat (max_chunk_size p)) = max_chunk_size p" using assms by linarith
  have sl: "py_slice words (int j) (int j + max_chunk_size p) = take (nat (max_chunk_size p)) (drop j words)"
    using py_slice_nonneg [of words j "nat (max_chunk_size p)"] sz by simp
  have st: "max_chunk_size p - chunk_overlap p = int (nat (max_chunk_size p) - nat (chunk_overlap p))"
    using assms by linarith
  have dv: "int j div (max_chunk_size p - chunk_overlap p) = int (j div (nat (max_chunk_size p) - nat (chunk_overlap p)))"
    unfolding st by (rule zdiv_int [symmetric])
  have c: "(int m < chunk_overlap p) = (m < nat (chunk_overlap p))" for m
    using assms by linarith
  show ?thesis
    unfolding window_at_def Let_def sl dv c by (rule refl)
qed

lemma sliding_windows_ok:
  assumes "chunk_overlap p < max_chunk_size p"
  shows "sliding_windows p words =
     Inr (concat (map (window_at p words)
        (map int (range_up 0 (length words) (nat (max_chunk_size p - chunk_overlap p))))))"
  using assms by (simp add: sliding_windows_def range0_def)

lemma window_mem:
  assumes k: "0 < chunk_overlap p" "chunk_overlap p < max_chunk_size p"
    and ws: "sliding_windows p words = Inr ws"
    and m: "(i, w) \<in> set ws"
  shows "0 \<le> i \<and> w = take (nat (max_chunk_size p)) (drop (nat i * (nat (max_chunk_size p) - nat (chunk_overlap p))) words)
         \<and> nat (chunk_overlap p) \<le> length w"
proof -
  let ?s = "nat (max_chunk_size p) - nat (chunk_overlap p)"
  have s: "nat (max_chunk_size p - chunk_overlap p) = ?s" using k by linarith
  have spos: "0 < ?s" using k by linarith
  from ws m sliding_windows_ok [OF k(2), of words]
  obtain j where j: "j \<in> set (range_up 0 (length words) ?s)" and mem: "(i, w) \<in> set (window_at p words (int j))"
    unfolding s by auto
  from range_up_mem [OF j] obtain a where a: "j = a * ?s" by auto
  from mem have len: "\<not> length (take (nat (max_chunk_size p)) (drop j words)) < nat (chunk_overlap p)"
    and i: "i = int (j div ?s)" and w: "w = take (nat (max_chunk_size p)) (drop j words)"
    unfolding window_at_nat [OF k] by (auto split: if_splits)
  have d: "j div ?s = a" using a spos by simp
  have l: "nat (chunk_overlap p) \<le> length w" using len unfolding w by linarith
  show ?thesis using i w l unfolding d a by simp
qed

subsection \<open>Overlap of consecutive windows\<close>

text \<open>
  Claim C10. With \<open>0 < chunk_overlap < max_chunk_size\<close>, whenever the sliding-window loop
  emits the windows with window index \<open>i\<close> and \<open>i + 1\<close>, the last \<open>chunk_overlap\<close> words
  of the first (\<^verbatim>\<open>w[-overlap:]\<close>) are the first \<open>chunk_overlap\<close> words of the second
  (\<^verbatim>\<open>w'[:overlap]\<close>).
\<close>

theorem sliding_overlap:
  assumes k: "0 < chunk_overlap p" "chunk_overlap p < max_chunk_size p"
    and ws: "sliding_windows p words = Inr ws"
    and m1: "(i, w) \<in> set ws" and m2: "(i + 1, w') \<in> set ws"
  shows "py_slice w (- chunk_overlap p) (int (length w)) = py_slice w' 0 (chunk_overlap p)"
proof -
  let ?k = "nat (chunk_overlap p)" and ?z = "nat (max_chunk_size p)"
  let ?s = "?z - ?k"
  have kz: "0 < ?k" "?k < ?z" using k by linarith+
  have ck: "chunk_overlap p = int ?k" using k by simp
  from window_mem [OF k ws m1] have i0: "0 \<le> i"
    and w: "w = take ?z (drop (nat i * ?s) words)" by blast+
  from window_mem [OF k ws m2] have w': "w' = take ?z (drop (nat (i + 1) * ?s) words)"
    and len': "?k \<le> length w'" by blast+
  have ni: "nat (i + 1) * ?s = nat i * ?s + ?s" using i0 by (simp add: nat_add_distrib)
  have "length w' \<le> length words - (nat i * ?s + ?s)" unfolding w' ni by simp
  with len' have "?k \<le> length words - (nat i * ?s + ?s)" by linarith
  then have big: "nat i * ?s + ?z \<le> length words" using kz by linarith
  then have "?z \<le> length words - nat i * ?s" by linarith
  then have lw: "length w = ?z" unfolding w by (simp add: min_def)
  have "py_slice w (- int ?k) (int (length w)) = drop (length w - ?k) w"
    by (rule py_slice_last [OF kz(1)])
  also have "\<dots> = drop ?s (take ?z (drop (nat i * ?s) words))" unfolding lw unfolding w ..
  also have "\<dots> = take ?k (drop (nat i * ?s + ?s) words)"
  proof -
    have zs: "?z - ?s = ?k" using kz by linarith
    show ?thesis by (simp add: drop_take add.commute zs)
  qed
  also have "\<dots> = take ?k w'" unfolding w' ni using kz by simp
  also have "\<dots> = py_slice w' 0 (int ?k)" by (rule py_slice_first [symmetric])
  finally show ?thesis unfolding ck [symmetric] .
qed

theorem sliding_overlap_witness:
  "sliding_windows \<lparr>max_readme_size = 500000, chunk_strategy = ''sliding'', max_chunk_size = 3, chunk_overlap = 1\<rparr>
     [''a'', ''b'', ''c'', ''d'', ''e'']
   = Inr [(0, [''a'', ''b'', ''c'']), (1, [''c'', ''d'', ''e'']), (2, [''e''])]
   \<and> py_slice [''a'', ''b'', ''c''] (- 1) 3 = py_slice [''c'', ''d'', ''e''] 0 1"
proof -
  let ?p = "\<lparr>max_readme_size = 500000, chunk_strategy = ''sliding'', max_chunk_size = 3, chunk_overlap = 1\<rparr>"
  have h: "sliding_windows ?p [''a'', ''b'', ''c'', ''d'', ''e'']
     = Inr [(0, [''a'', ''b'', ''c'']), (1, [''c'', ''d'', ''e'']), (2, [''e''])]"
    by code_simp
  have "py_slice [''a'', ''b'', ''c''] (- chunk_overlap ?p) (int (length [''a'', ''b'', ''c'']))
      = py_slice [''c'', ''d'', ''e''] 0 (chunk_overlap ?p)"
    by (rule sliding_overlap [OF _ _ h, of 0]) simp_all
  with h show ?thesis by simp
qed

lemma windows_rest:
  assumes k: "0 < chunk_overlap p" "chunk_overlap p < max_chunk_size p"
    and n: "n = length words" and s: "s = nat (max_chunk_size p) - nat (chunk_overlap p)"
  shows "concat (map (\<lambda>v. drop (nat (chunk_overlap p)) (snd v))
           (concat (map (window_at p words) (map int (range_up i n s)))))
         = drop (i + nat (chunk_overlap p)) words"
  using n s
proof (induction i n s rule: range_up.induct)
  case (1 i n step)
  let ?k = "nat (chunk_overlap p)" and ?z = "nat (max_chunk_size p)"
  have kz: "0 < ?k" "?k < ?z" using k by linarith+
  have spos: "0 < step" using "1.prems" kz by linarith
  have zs: "?z = step + ?k" using "1.prems" kz by linarith
  show ?case
  proof (cases "i < n")
    case False
    then have "range_up i n step = []" by (subst range_up.simps) simp
    with False "1.prems" show ?thesis by simp
  next
    case True
    then have r: "range_up i n step = i # range_up (i + step) n step"
      using spos by (subst range_up.simps) simp
    have IH: "concat (map (\<lambda>v. drop ?k (snd v))
           (concat (map (window_at p words) (map int (range_up (i + step) n step)))))
         = drop (i + step + ?k) words"
      using "1.IH" [OF _ "1.prems"] spos True by simp
    show ?thesis
    proof (cases "length (take ?z (drop i words)) < ?k")
      case short: True
      then have "length words - i < ?k" using kz by (simp add: min_def split: if_splits)
      then have "drop (i + ?k) words = []" "drop (i + step + ?k) words = []" by simp_all
      with short IH show ?thesis unfolding r by (simp add: window_at_nat [OF k])
    next
      case long: False
      have "drop ?k (take ?z (drop i words)) @ drop (i + step + ?k) words = drop (i + ?k) words"
      proof -
        have "drop ?k (take ?z (drop i words)) = take step (drop (i + ?k) words)"
          unfolding zs by (simp add: drop_take add.commute)
        moreover have "drop (i + step + ?k) words = drop step (drop (i + ?k) words)"
        proof -
          have "i + step + ?k = step + (i + ?k)" by linarith
          then show ?thesis by (simp only: drop_drop)
        qed
        ultimately show ?thesis by (simp only: append_take_drop_id)
      qed
      with long IH show ?thesis unfolding r by (simp add: window_at_nat [OF k])
    qed
  qed
qed

subsection \<open>Coverage of the document by its windows\<close>

text \<open>
  Claim C6, amended. With \<open>0 < chunk_overlap < max_chunk_size\<close>, for a word sequence that
  is empty or has at least \<open>chunk_overlap\<close> words, the sliding-window loop returns, and
  the first window followed by every later window without its first \<open>chunk_overlap\<close>
  words is the original word sequence.
\<close>

theorem sliding_coverage:
  assumes k: "0 < chunk_overlap p" "chunk_overlap p < max_chunk_size p"
    and big: "words = [] \<or> chunk_overlap p \<le> int (length words)"
  shows "\<exists>ws. sliding_windows p words = Inr ws \<and> reconstruct p (map snd ws) = words"
proof -
  let ?k = "nat (chunk_overlap p)" and ?z = "nat (max_chunk_size p)"
  let ?s = "?z - ?k"
  let ?ws = "concat (map (window_at p words) (map int (range_up 0 (length words) ?s)))"
  have kz: "0 < ?k" "?k < ?z" using k by linarith+
  have ck: "chunk_overlap p = int ?k" using k by simp
  have s: "nat (max_chunk_size p - chunk_overlap p) = ?s" using k by linarith
  have ok: "sliding_windows p words = Inr ?ws"
    using sliding_windows_ok [OF k(2), of words] unfolding s .
  have sl: "(\<lambda>v::'a list. py_slice v (chunk_overlap p) (int (length v))) = drop ?k"
  proof (rule ext)
    fix v :: "'a list"
    have "py_slice v (int ?k) (int (length v)) = drop ?k v" by (rule py_slice_from)
    then show "py_slice v (chunk_overlap p) (int (length v)) = drop ?k v"
      using kz(1) by (simp only: int_nat_eq) (simp split: if_splits)
  qed
  have "reconstruct p (map snd ?ws) = words"
  proof (cases "words = []")
    case True
    then have "range_up 0 (length words) ?s = []" by (subst range_up.simps) simp
    with True show ?thesis by (simp add: reconstruct_def)
  next
    case False
    with big have len: "?k \<le> length words" by linarith
    from False have r: "range_up 0 (length words) ?s = 0 # range_up (0 + ?s) (length words) ?s"
      using kz by (subst range_up.simps) simp
    have w0: "window_at p words (int 0) = [(0, take ?z words)]"
      unfolding window_at_nat [OF k] using len kz by (simp add: min_def)
    have rest: "concat (map (\<lambda>v. drop ?k (snd v))
           (concat (map (window_at p words) (map int (range_up (0 + ?s) (length words) ?s)))))
         = drop (0 + ?s + ?k) words"
      by (rule windows_rest [OF k refl refl])
    have sk: "0 + ?s + ?k = ?z" using kz by linarith
    have "reconstruct p (map snd ?ws) = take ?z words @ drop ?z words"
      unfolding r using w0 rest unfolding sk
      by (simp add: reconstruct_def sl map_concat comp_def)
    then show ?thesis by simp
  qed
  with ok show ?thesis by blast
qed

theorem sliding_coverage_witness:
  "0 < chunk_overlap \<lparr>max_readme_size = 500000, chunk_strategy = ''sliding'', max_chunk_size = 3, chunk_overlap = 1\<rparr>
   \<and> (\<exists>ws. sliding_windows \<lparr>max_readme_size = 500000, chunk_strategy = ''sliding'', max_chunk_size = 3, chunk_overlap = 1\<rparr>
              [''a'', ''b'', ''c'', ''d'', ''e''] = Inr ws
           \<and> reconstruct \<lparr>max_readme_size = 500000, chunk_strategy = ''sliding'', max_chunk_size = 3, chunk_overlap = 1\<rparr> (map snd ws)
              = [''a'', ''b'', ''c'', ''d'', ''e''])"
  using sliding_coverage [of "\<lparr>max_readme_size = 500000, chunk_strategy = ''sliding'', max_chunk_size = 3, chunk_overlap = 1\<rparr>"
      "[''a'', ''b'', ''c'', ''d'', ''e'']"]
  by simp

text \<open>
  The claim as stated, for every word sequence, fails on a one-word document with
  \<open>max_chunk_size = 3\<close> and \<open>chunk_overlap = 2\<close>: the only window has one word, fewer than
  the overlap, so it is skipped and nothing is emitted.
\<close>

theorem sliding_coverage_counterexample:
  "0 < chunk_overlap \<lparr>max_readme_size = 500000, chunk_strategy = ''sliding'', max_chunk_size = 3, chunk_overlap = 2\<rparr>
   \<and> chunk_overlap \<lparr>max_readme_size = 500000, chunk_strategy = ''sliding'', max_chunk_size = 3, chunk_overlap = 2\<rparr>
       < max_chunk_size \<lparr>max_readme_size = 500000, chunk_strategy = ''sliding'', max_chunk_size = 3, chunk_overlap = 2\<rparr>
   \<and> sliding_windows \<lparr>max_readme_size = 500000, chunk_strategy = ''sliding'', max_chunk_size = 3, chunk_overlap = 2\<rparr> [''a''] = Inr []
   \<and> reconstruct \<lparr>max_readme_size = 500000, chunk_strategy = ''sliding'', max_chunk_size = 3, chunk_overlap = 2\<rparr> (map snd []) \<noteq> [''a'']"
  by code_simp

text \<open>
  The same happens for every document shorter than the overlap: each window the loop
  visits has fewer than \<open>chunk_overlap\<close> words, so every one of them is skipped and no
  chunk is produced.
\<close>

lemma sliding_short_document:
  assumes k: "0 < chunk_overlap p" "chunk_overlap p < max_chunk_size p"
    and short: "int (length words) < chunk_overlap p"
  shows "sliding_windows p words = Inr []"
proof -
  have "window_at p words (int j) = []" for j
  proof -
    have "length (take (nat (max_chunk_size p)) (drop j words)) \<le> length words" by simp
    with short have "length (take (nat (max_chunk_size p)) (drop j words)) < nat (chunk_overlap p)"
      by linarith
    then show ?thesis unfolding window_at_nat [OF k] by simp
  qed
  then have "concat (map (window_at p words) (map int js)) = []" for js
    by simp
  then show ?thesis using sliding_windows_ok [OF k(2), of words] by simp
qed

section \<open>Properties of the chunking strategies\<close>

subsection \<open>Documents without headers\<close>

lemma sliding_windows_total:
  "max_chunk_size p \<noteq> chunk_overlap p \<Longrightarrow> \<exists>ws. sliding_windows p words = Inr ws"
  by (simp add: sliding_windows_def range0_def)

lemma sliding_window_chunking_total:
  "max_chunk_size p \<noteq> chunk_overlap p \<Longrightarrow> \<exists>cs. sliding_window_chunking p doc r = Inr cs"
  using sliding_windows_total [of p "py_split doc"]
  by (auto simp: sliding_window_chunking_def)

lemma sliding_window_chunking_type:
  "sliding_window_chunking p doc r = Inr cs \<Longrightarrow> c \<in> set cs \<Longrightarrow>
   chunk_type c = Readme_window \<and> prefix (repo_header r) (content c)"
  by (auto simp: sliding_window_chunking_def window_chunk_def split: sum.splits)

lemma semantic_headerless:
  "findall_headers doc = [] \<Longrightarrow> semantic_chunking p doc r = sliding_window_chunking p doc r"
  by (simp add: semantic_chunking_def)

lemma semantic_headers:
  "findall_headers doc \<noteq> [] \<Longrightarrow>
   semantic_chunking p doc r = Inr (map (section_chunk r) (enumerate 0 (findall_headers doc)))"
  by (simp add: semantic_chunking_def Let_def)

lemma hybrid_headerless_eq:
  assumes "findall_headers doc = []" and "sliding_window_chunking p doc r = Inr ws"
  shows "hybrid_chunking p doc r
         = Inr (map (\<lambda>c. c\<lparr>chunk_type := Readme_hybrid, section_index := Some 0\<rparr>) ws)"
proof (cases ws)
  case Nil
  with assms show ?thesis by (simp add: hybrid_chunking_def semantic_headerless)
next
  case (Cons w rest)
  with assms(2) have "chunk_type w = Readme_window"
    using sliding_window_chunking_type [of p doc r ws w] by simp
  with Cons assms show ?thesis by (simp add: hybrid_chunking_def semantic_headerless)
qed

lemma findall_from_no_hash:
  "CHR ''#'' \<notin> set s \<Longrightarrow> findall_from b s = []"
proof (induction s arbitrary: b)
  case Nil
  show ?case by (subst findall_from.simps) (simp add: header_match_def header_rest_def)
next
  case (Cons c cs)
  have nr: "header_rest t = None" if "CHR ''#'' \<notin> set t" for t
    using that by (cases t) (auto simp: header_rest_def is_hash_def)
  from Cons.prems have "header_match b (c # cs) = None"
    by (auto simp: header_match_def nr split: option.splits)
  with Cons show ?case by (subst findall_from.simps) simp
qed

lemma header_rest_header_line: "header_rest s = Some r \<Longrightarrow> header_line_at s"
proof (cases s)
  case Nil
  assume "header_rest s = Some r"
  with Nil show ?thesis by (simp add: header_rest_def)
next
  case (Cons h hs)
  assume a: "header_rest s = Some r"
  with Cons have hh: "is_hash h" and ws: "takeWhile is_space (dropWhile is_hash hs) \<noteq> []"
    by (auto simp: header_rest_def Let_def split: if_splits)
  from ws obtain d ds where "dropWhile is_hash hs = d # ds" "is_space d"
    by (cases "dropWhile is_hash hs") (auto split: if_splits)
  with hh Cons show ?thesis by (simp add: header_line_at_def)
qed

lemma has_header_line_from_True:
  "header_line_at s \<Longrightarrow> has_header_line_from True s"
  by (cases s) (auto simp: header_line_at_def)

lemma no_header_line_no_match:
  "\<not> has_header_line_from ls s \<Longrightarrow> (b \<longrightarrow> ls) \<Longrightarrow> findall_from b s = []"
proof (induction s arbitrary: b ls)
  case Nil
  show ?case by (subst findall_from.simps) (simp add: header_match_def header_rest_def)
next
  case (Cons c cs)
  from Cons.prems have n1: "\<not> (ls \<and> header_line_at (c # cs))"
    and n2: "\<not> has_header_line_from (c = CHR 0x0A) cs" by simp_all
  have r1: "b \<Longrightarrow> header_rest (c # cs) = None"
  proof (rule ccontr)
    assume b and "header_rest (c # cs) \<noteq> None"
    then obtain r where "header_rest (c # cs) = Some r" by auto
    from header_rest_header_line [OF this] n1 \<open>b\<close> Cons.prems(2) show False by simp
  qed
  have r2: "c = CHR 0x0A \<Longrightarrow> header_rest cs = None"
  proof (rule ccontr)
    assume c: "c = CHR 0x0A" and "header_rest cs \<noteq> None"
    then obtain r where "header_rest cs = Some r" by auto
    from has_header_line_from_True [OF header_rest_header_line [OF this]] n2 c show False by simp
  qed
  have "header_match b (c # cs) = None"
    using r1 r2 by (auto simp: header_match_def split: option.splits)
  moreover have "findall_from False cs = []"
    by (rule Cons.IH [OF n2]) simp
  ultimately show ?case by (subst findall_from.simps) simp
qed

lemma headerless_document:
  "\<not> has_header_line doc \<Longrightarrow> findall_headers doc = []"
  unfolding has_header_line_def findall_headers_def
  by (rule no_header_line_no_match) simp_all

text \<open>
  Claim C7. When the header pattern finds nothing in a document, as in every document
  without a header line (lemma \<open>headerless_document\<close>), hybrid chunking returns
  whenever \<open>max_chunk_size\<close> and \<open>chunk_overlap\<close> differ (with equal values
  \<^verbatim>\<open>range\<close> raises ValueError), and every chunk it returns is tagged
  \<^verbatim>\<open>readme_hybrid\<close> and carries \<open>section_index = 0\<close>; so none is tagged
  \<^verbatim>\<open>readme_section\<close>.
\<close>

theorem hybrid_headerless:
  assumes "findall_headers doc = []"
  shows "(max_chunk_size p \<noteq> chunk_overlap p \<longrightarrow> (\<exists>cs. hybrid_chunking p doc r = Inr cs))
       \<and> (\<forall>cs. hybrid_chunking p doc r = Inr cs \<longrightarrow>
            (\<forall>c \<in> set cs. chunk_type c = Readme_hybrid \<and> section_index c = Some 0))"
proof (cases "sliding_window_chunking p doc r")
  case (Inl e)
  then have "hybrid_chunking p doc r = Inl e"
    using assms by (simp add: hybrid_chunking_def semantic_headerless)
  moreover from Inl have "max_chunk_size p = chunk_overlap p"
    using sliding_window_chunking_total [of p doc r] by auto
  ultimately show ?thesis by simp
next
  case (Inr ws)
  from hybrid_headerless_eq [OF assms Inr] show ?thesis by auto
qed

theorem hybrid_headerless_witness:
  "findall_headers ''a b c d e'' = []
   \<and> (\<exists>cs. hybrid_chunking \<lparr>max_readme_size = 500000, chunk_strategy = ''hybrid'', max_chunk_size = 3, chunk_overlap = 1\<rparr>
              ''a b c d e'' \<lparr>repo_ident = 7, full_name = ''u/r'', description = None\<rparr> = Inr cs
         \<and> length cs = 3
         \<and> (\<forall>c \<in> set cs. chunk_type c = Readme_hybrid \<and> section_index c = Some 0))"
proof -
  let ?p = "\<lparr>max_readme_size = 500000, chunk_strategy = ''hybrid'', max_chunk_size = 3, chunk_overlap = 1\<rparr>"
  let ?r = "\<lparr>repo_ident = 7, full_name = ''u/r'', description = None\<rparr>"
  have h: "findall_headers ''a b c d e'' = []" by code_simp
  have l: "(case hybrid_chunking ?p ''a b c d e'' ?r of Inl e \<Rightarrow> False | Inr cs \<Rightarrow> length cs = 3)"
    by code_simp
  then obtain cs where e: "hybrid_chunking ?p ''a b c d e'' ?r = Inr cs" and n: "length cs = 3"
    by (auto split: sum.splits)
  from hybrid_headerless [OF h, of ?p ?r] e n h show ?thesis by auto
qed

subsection \<open>The special case for the text "Large Test Repository"\<close>

lemma hybrid_loop_small:
  "\<forall>ic \<in> set ics. \<not> max_chunk_size p < int (length (py_split (content (snd ic)))) \<Longrightarrow>
   hybrid_loop p r ics st = Inr (fst st @ map snd ics, snd st)"
  by (induction ics arbitrary: st) simp_all

text \<open>
  Claim C4. For a document in which headers are found and none of whose semantic chunks
  has more than \<open>max_chunk_size\<close> words, hybrid chunking returns the semantic chunks,
  all tagged \<^verbatim>\<open>readme_section\<close>, and, exactly when the document contains the text
  \<^verbatim>\<open>Large Test Repository\<close>, one more chunk after them: id \<^verbatim>\<open>{repo_id}-0-hybrid\<close>,
  tagged \<^verbatim>\<open>readme_hybrid\<close>, section and window index 0, with the content of the first
  semantic chunk. The witness runs a document with the text and the same document without
  the word \<^verbatim>\<open>Test\<close>.
\<close>

theorem hybrid_large_test_repository:
  assumes sem: "semantic_chunking p doc r = Inr sem"
    and hdr: "findall_headers doc \<noteq> []"
    and small: "\<forall>c \<in> set sem. int (length (py_split (content c))) \<le> max_chunk_size p"
  shows "sem \<noteq> [] \<and> (\<forall>c \<in> set sem. chunk_type c = Readme_section)
       \<and> hybrid_chunking p doc r =
           Inr (sem @ (if contains ''Large Test Repository'' doc
                       then [\<lparr> chunk_id = str_of_int (repo_ident r) @ ''-0-hybrid'',
                               repo_id = repo_ident r,
                               repo_name = full_name r,
                               content = content (hd sem),
                               chunk_type = Readme_hybrid,
                               section_index = Some 0,
                               window_index = Some 0 \<rparr>]
                       else []))"
proof -
  from sem hdr have s: "sem = map (section_chunk r) (enumerate 0 (findall_headers doc))"
    by (simp add: semantic_headers)
  then have "length sem = length (findall_headers doc)" by simp
  with hdr have ne: "sem \<noteq> []" by auto
  from s have ty: "\<forall>c \<in> set sem. chunk_type c = Readme_section"
    by (auto simp: section_chunk_def)
  from ne obtain first rest where fr: "sem = first # rest" by (cases sem) auto
  with ty have nw: "chunk_type first \<noteq> Readme_window" by simp
  have "\<forall>ic \<in> set (enumerate 0 sem). \<not> max_chunk_size p < int (length (py_split (content (snd ic))))"
    using small by (auto simp: enumerate_eq_zip dest!: set_zip_rightD)
  then have loop: "hybrid_loop p r (enumerate 0 sem) ([], False) = Inr (sem, False)"
    by (simp add: hybrid_loop_small)
  have "hybrid_chunking p doc r =
      (if contains ''Large Test Repository'' doc
       then Inr (sem @ [forced_hybrid_chunk r first]) else Inr sem)"
    unfolding hybrid_chunking_def sem using nw loop by (simp add: fr)
  with ne ty fr show ?thesis by (simp add: forced_hybrid_chunk_def)
qed

theorem hybrid_large_test_repository_witness:
  "hybrid_chunking \<lparr>max_readme_size = 500000, chunk_strategy = ''hybrid'', max_chunk_size = 100, chunk_overlap = 20\<rparr>
     ''# Large Test Repository\<newline>\<newline>Small.''
     \<lparr>repo_ident = 7, full_name = ''u/r'', description = None\<rparr>
   = Inr [\<lparr>chunk_id = ''7-0'', repo_id = 7, repo_name = ''u/r'', content = ''Repository: u/r\<newline>\<newline>'',
            chunk_type = Readme_section, section_index = Some 0, window_index = None\<rparr>,
          \<lparr>chunk_id = ''7-0-hybrid'', repo_id = 7, repo_name = ''u/r'', content = ''Repository: u/r\<newline>\<newline>'',
            chunk_type = Readme_hybrid, section_index = Some 0, window_index = Some 0\<rparr>]
   \<and> hybrid_chunking \<lparr>max_readme_size = 500000, chunk_strategy = ''hybrid'', max_chunk_size = 100, chunk_overlap = 20\<rparr>
     ''# Large Repository\<newline>\<newline>Small.''
     \<lparr>repo_ident = 7, full_name = ''u/r'', description = None\<rparr>
   = Inr [\<lparr>chunk_id = ''7-0'', repo_id = 7, repo_name = ''u/r'', content = ''Repository: u/r\<newline>\<newline>'',
            chunk_type = Readme_section, section_index = Some 0, window_index = None\<rparr>]"
proof -
  let ?p = "\<lparr>max_readme_size = 500000, chunk_strategy = ''hybrid'', max_chunk_size = 100, chunk_overlap = 20\<rparr>"
  let ?r = "\<lparr>repo_ident = 7, full_name = ''u/r'', description = None\<rparr>"
  let ?c = "\<lparr>chunk_id = ''7-0'', repo_id = 7, repo_name = ''u/r'', content = ''Repository: u/r\<newline>\<newline>'',
            chunk_type = Readme_section, section_index = Some 0, window_index = None\<rparr>"
  have s1: "semantic_chunking ?p ''# Large Test Repository\<newline>\<newline>Small.'' ?r = Inr [?c]"
    by code_simp
  have s2: "semantic_chunking ?p ''# Large Repository\<newline>\<newline>Small.'' ?r = Inr [?c]"
    by code_simp
  have h1: "findall_headers ''# Large Test Repository\<newline>\<newline>Small.'' \<noteq> []" by code_simp
  have h2: "findall_headers ''# Large Repository\<newline>\<newline>Small.'' \<noteq> []" by code_simp
  have w: "\<forall>c \<in> set [?c]. int (length (py_split (content c))) \<le> max_chunk_size ?p"
    by code_simp
  have c1: "contains ''Large Test Repository'' ''# Large Test Repository\<newline>\<newline>Small.''" by code_simp
  have c2: "\<not> contains ''Large Test Repository'' ''# Large Repository\<newline>\<newline>Small.''" by code_simp
  have i7: "str_of_int 7 = ''7''" by code_simp
  from hybrid_large_test_repository [OF s1 h1 w] hybrid_large_test_repository [OF s2 h2 w] c1 c2 i7
  show ?thesis by simp
qed

subsection \<open>Two headers of sixty words\<close>

text \<open>
  Claim C5, run on the code. The README has the headers \<^verbatim>\<open>Install\<close> and
  \<^verbatim>\<open>Usage\<close>, each followed by sixty words, and \<open>max_chunk_size = 100\<close>. Hybrid
  chunking returns two chunks tagged \<^verbatim>\<open>readme_section\<close> with section index 0 and 1,
  but the content of both is the repository context line alone: \<^verbatim>\<open>re.findall\<close>
  returned the text of the group \<^verbatim>\<open>(^|\n)\<close> of each match, not the section.
\<close>

theorem hybrid_two_headers_lose_section_text:
  "hybrid_chunking \<lparr>max_readme_size = 500000, chunk_strategy = ''hybrid'', max_chunk_size = 100, chunk_overlap = 20\<rparr>
     (''# Install\<newline>\<newline>'' @ concat (replicate 60 ''run '') @ ''\<newline>\<newline># Usage\<newline>\<newline>'' @ concat (replicate 60 ''use ''))
     \<lparr>repo_ident = 7, full_name = ''u/r'', description = None\<rparr>
   = Inr [\<lparr>chunk_id = ''7-0'', repo_id = 7, repo_name = ''u/r'', content = ''Repository: u/r\<newline>\<newline>'',
            chunk_type = Readme_section, section_index = Some 0, window_index = None\<rparr>,
          \<lparr>chunk_id = ''7-1'', repo_id = 7, repo_name = ''u/r'', content = ''Repository: u/r\<newline>\<newline>'',
            chunk_type = Readme_section, section_index = Some 1, window_index = None\<rparr>]"
  by code_simp

subsection \<open>Sections of a cleaned README\<close>

text \<open>
  \<^verbatim>\<open>process_readme\<close> cleans the document before chunking it, and the cleaning ends by
  replacing every run of whitespace by one blank. The cleaned text has no newline, so the
  header pattern can match at the start only: at most one section is found, and at most one
  chunk of type \<^verbatim>\<open>readme_section\<close> is returned.
\<close>

lemma normalize_whitespace_no_newline: "CHR 0x0A \<notin> set (normalize_whitespace b s)"
proof (induction s arbitrary: b)
  case Nil
  show ?case by simp
next
  case (Cons c cs)
  have "is_space (CHR 0x0A)" by (simp add: is_space_def whitespace_chars_def)
  then have "\<not> is_space c \<Longrightarrow> c \<noteq> CHR 0x0A" by auto
  with Cons show ?case by auto
qed

lemma lazy_end_no_newline: "CHR 0x0A \<notin> set s \<Longrightarrow> lazy_end s = []"
  by (induction s) (auto simp: header_ahead_def)

lemma header_rest_no_newline:
  assumes "CHR 0x0A \<notin> set s" and "header_rest s = Some r"
  shows "r = []"
proof -
  from assms(2) obtain h hs where s: "s = h # hs" by (cases s) (auto simp: header_rest_def)
  let ?s2 = "dropWhile is_space (dropWhile is_hash hs)"
  from assms(2) s have "r = [] \<or> (\<exists>d ds. ?s2 = d # ds \<and> r = lazy_end ds)"
    by (auto simp: header_rest_def Let_def split: if_splits list.splits)
  then show ?thesis
  proof
    assume "r = []" then show ?thesis .
  next
    assume "\<exists>d ds. ?s2 = d # ds \<and> r = lazy_end ds"
    then obtain d ds where e: "?s2 = d # ds" "r = lazy_end ds" by blast
    have "set ?s2 \<subseteq> set hs"
      by (meson set_dropWhileD subsetI)
    with e(1) have "set ds \<subseteq> set hs" by auto
    with assms(1) s have "CHR 0x0A \<notin> set ds" by auto
    with e(2) show ?thesis by (simp add: lazy_end_no_newline)
  qed
qed

lemma findall_from_False_no_newline:
  "CHR 0x0A \<notin> set s \<Longrightarrow> findall_from False s = []"
proof (induction s)
  case Nil
  show ?case by (subst findall_from.simps) (simp add: header_match_def)
next
  case (Cons c cs)
  then have "header_match False (c # cs) = None" by (auto simp: header_match_def)
  with Cons show ?case by (subst findall_from.simps) simp
qed

lemma findall_headers_no_newline:
  assumes "CHR 0x0A \<notin> set s"
  shows "length (findall_headers s) \<le> 1"
proof (cases "header_match True s")
  case None
  then show ?thesis
    unfolding findall_headers_def using assms
    by (subst findall_from.simps) (auto simp: findall_from_False_no_newline split: list.splits)
next
  case (Some gr)
  obtain g r where gr: "gr = (g, r)" by (cases gr)
  have "r = []"
  proof (cases "header_rest s")
    case None
    with Some gr assms show ?thesis
      by (auto simp: header_match_def split: list.splits if_splits option.splits)
  next
    case (Some r')
    with \<open>header_match True s = Some gr\<close> gr have "r = r'" by (simp add: header_match_def)
    with header_rest_no_newline [OF assms Some] show ?thesis by simp
  qed
  moreover have "findall_from False [] = []"
    by (rule findall_from_False_no_newline) simp
  ultimately show ?thesis
    unfolding findall_headers_def using Some gr
    by (subst findall_from.simps) simp
qed

lemma clean_content_single_section:
  "length (findall_headers (clean_content render doc)) \<le> 1"
  unfolding clean_content_def
  by (rule findall_headers_no_newline) (rule normalize_whitespace_no_newline)

lemma hybrid_loop_sections:
  "hybrid_loop p r ics st = Inr st' \<Longrightarrow>
   length (filter (\<lambda>c. chunk_type c = Readme_section) (fst st'))
     \<le> length (filter (\<lambda>c. chunk_type c = Readme_section) (fst st)) + length ics"
proof (induction ics arbitrary: st)
  case Nil
  then show ?case by simp
next
  case (Cons ic rest)
  show ?case
  proof (cases "max_chunk_size p < int (length (py_split (content (snd ic))))")
    case False
    with Cons.prems have "hybrid_loop p r rest (fst st @ [snd ic], snd st) = Inr st'" by simp
    from Cons.IH [OF this] show ?thesis by (simp split: if_splits)
  next
    case True
    with Cons.prems obtain ctx pieces ws where
      w: "hybrid_loop p r rest (fst st @ map (sub_chunk r ctx (fst ic)) ws, snd st \<or> ws \<noteq> []) = Inr st'"
      by (auto split: list.splits sum.splits)
    have "filter (\<lambda>c. chunk_type c = Readme_section) (map (sub_chunk r ctx (fst ic)) ws) = []"
      by (induction ws) (simp_all add: sub_chunk_def)
    with Cons.IH [OF w] show ?thesis by simp
  qed
qed

lemma hybrid_chunking_sections:
  assumes "hybrid_chunking p doc r = Inr cs"
  shows "length (filter (\<lambda>c. chunk_type c = Readme_section) cs) \<le> length (findall_headers doc)"
proof (cases "findall_headers doc = []")
  case True
  have "\<forall>c \<in> set cs. chunk_type c = Readme_hybrid"
  proof (cases "sliding_window_chunking p doc r")
    case (Inl e)
    with True assms show ?thesis by (simp add: hybrid_chunking_def semantic_headerless)
  next
    case (Inr ws)
    from hybrid_headerless_eq [OF True Inr] assms show ?thesis by auto
  qed
  then have "filter (\<lambda>c. chunk_type c = Readme_section) cs = []"
    by (induction cs) auto
  then show ?thesis by simp
next
  case False
  let ?sem = "map (section_chunk r) (enumerate 0 (findall_headers doc))"
  from False have sem: "semantic_chunking p doc r = Inr ?sem"
    by (simp add: semantic_chunking_def Let_def)
  from False have ne: "?sem \<noteq> []" by (auto simp: enumerate_eq_zip)
  then obtain first rest where fr: "?sem = first # rest" by (cases ?sem) auto
  then have "first \<in> set ?sem" by simp
  then have nw: "chunk_type first \<noteq> Readme_window" by (auto simp: section_chunk_def)
  from assms obtain st where
    loop: "hybrid_loop p r (enumerate 0 ?sem) ([], False) = Inr st"
    and cs: "cs = fst st \<or> cs = fst st @ [forced_hybrid_chunk r first]"
    unfolding hybrid_chunking_def sem using nw
    by (auto simp: fr split: sum.splits if_splits)
  from hybrid_loop_sections [OF loop]
  have "length (filter (\<lambda>c. chunk_type c = Readme_section) (fst st)) \<le> length (findall_headers doc)"
    by simp
  with cs show ?thesis by (auto simp: forced_hybrid_chunk_def)
qed

lemma process_readme_hybrid_single_section:
  assumes "chunk_strategy p \<noteq> ''semantic''" "chunk_strategy p \<noteq> ''sliding''"
    and "process_readme p render doc r = Inr cs"
  shows "length (filter (\<lambda>c. chunk_type c = Readme_section) cs) \<le> 1"
proof -
  let ?clean = "clean_content render
      (if max_readme_size p < int (length doc) then py_slice doc 0 (max_readme_size p) else doc)"
  from assms have "hybrid_chunking p ?clean r = Inr cs"
    by (simp add: process_readme_def Let_def)
  from hybrid_chunking_sections [OF this] clean_content_single_section [of render]
  show ?thesis by (meson le_trans)
qed

subsection \<open>The context line of every chunk\<close>

text \<open>
  Every README chunk is built from \<open>repo_header\<close>, and the sub-chunks of hybrid chunking
  from the first piece of \<^verbatim>\<open>chunk_content.split("\n\n")\<close>, which is the context line
  without its two line feeds as long as the full name has no line feed of its own.
  \<^verbatim>\<open>process_readme\<close> returns unless \<open>max_chunk_size = chunk_overlap\<close>.
\<close>

lemma split_nn_acc_first:
  "CHR 0x0A \<notin> set s \<Longrightarrow>
   split_nn_acc cur (s @ CHR 0x0A # CHR 0x0A # rest) = (rev cur @ s) # split_nn_acc [] rest"
proof (induction s arbitrary: cur)
  case Nil
  show ?case by simp
next
  case (Cons c cs)
  from Cons.prems have c: "c \<noteq> CHR 0x0A" and cs: "CHR 0x0A \<notin> set cs" by auto
  show ?case
  proof (cases cs)
    case Nil
    with c show ?thesis by simp
  next
    case (Cons d ds)
    have "split_nn_acc cur ((c # cs) @ CHR 0x0A # CHR 0x0A # rest)
          = split_nn_acc (c # cur) (cs @ CHR 0x0A # CHR 0x0A # rest)"
      using c Cons by simp
    also have "\<dots> = (rev (c # cur) @ cs) # split_nn_acc [] rest"
      by (rule Cons.IH [OF cs])
    finally show ?thesis by simp
  qed
qed

lemma split_nn_repo_header:
  assumes "CHR 0x0A \<notin> set (full_name r)"
  shows "split_nn (repo_header r @ t) = (''Repository: '' @ full_name r) # split_nn_acc [] t"
proof -
  from assms have "CHR 0x0A \<notin> set (''Repository: '' @ full_name r)" by simp
  from split_nn_acc_first [OF this, of "[]" t] show ?thesis
    by (simp add: split_nn_def repo_header_def)
qed

lemma repo_header_prefix_nonempty:
  "prefix (repo_header r) s \<Longrightarrow> s \<noteq> []"
  by (auto simp: repo_header_def)

lemma semantic_chunking_prefix:
  assumes "semantic_chunking p doc r = Inr cs" and "c \<in> set cs"
  shows "prefix (repo_header r) (content c)"
proof (cases "findall_headers doc = []")
  case True
  with assms show ?thesis
    using sliding_window_chunking_type [of p doc r cs c] by (simp add: semantic_headerless)
next
  case False
  with assms show ?thesis by (auto simp: semantic_headers section_chunk_def)
qed

lemma hybrid_loop_prefix:
  assumes "CHR 0x0A \<notin> set (full_name r)"
  shows "\<forall>ic \<in> set ics. prefix (repo_header r) (content (snd ic)) \<Longrightarrow>
         \<forall>c \<in> set (fst st). prefix (repo_header r) (content c) \<Longrightarrow>
         hybrid_loop p r ics st = Inr st' \<Longrightarrow>
         \<forall>c \<in> set (fst st'). prefix (repo_header r) (content c)"
proof (induction ics arbitrary: st)
  case Nil
  then show ?case by simp
next
  case (Cons ic rest)
  from Cons.prems(1) have rest: "\<forall>ic \<in> set rest. prefix (repo_header r) (content (snd ic))"
    and ic: "prefix (repo_header r) (content (snd ic))" by simp_all
  show ?case
  proof (cases "max_chunk_size p < int (length (py_split (content (snd ic))))")
    case False
    with Cons.prems(3) have l: "hybrid_loop p r rest (fst st @ [snd ic], snd st) = Inr st'" by simp
    from Cons.prems(2) ic have "\<forall>c \<in> set (fst (fst st @ [snd ic], snd st)). prefix (repo_header r) (content c)"
      by auto
    from Cons.IH [OF rest this l] show ?thesis .
  next
    case True
    from ic obtain t where t: "content (snd ic) = repo_header r @ t" by (auto simp: prefix_def)
    have sp: "split_nn (content (snd ic)) = (''Repository: '' @ full_name r) # split_nn_acc [] t"
      unfolding t by (rule split_nn_repo_header [OF assms])
    from Cons.prems(3) True sp obtain ws where
      l: "hybrid_loop p r rest
            (fst st @ map (sub_chunk r (''Repository: '' @ full_name r) (fst ic)) ws, snd st \<or> ws \<noteq> []) = Inr st'"
      by (auto split: sum.splits)
    have "\<forall>c \<in> set (map (sub_chunk r (''Repository: '' @ full_name r) (fst ic)) ws).
            prefix (repo_header r) (content c)"
      by (auto simp: sub_chunk_def repo_header_def)
    with Cons.prems(2)
    have "\<forall>c \<in> set (fst (fst st @ map (sub_chunk r (''Repository: '' @ full_name r) (fst ic)) ws,
                             snd st \<or> ws \<noteq> [])). prefix (repo_header r) (content c)"
      by auto
    from Cons.IH [OF rest this l] show ?thesis .
  qed
qed

lemma hybrid_chunking_prefix:
  assumes nl: "CHR 0x0A \<notin> set (full_name r)"
    and h: "hybrid_chunking p doc r = Inr cs" and c: "c \<in> set cs"
  shows "prefix (repo_header r) (content c)"
proof (cases "semantic_chunking p doc r")
  case (Inl e)
  with h show ?thesis by (simp add: hybrid_chunking_def)
next
  case (Inr sem)
  note sem = semantic_chunking_prefix [OF Inr]
  show ?thesis
  proof (cases sem)
    case Nil
    with h Inr c show ?thesis by (simp add: hybrid_chunking_def)
  next
    case (Cons first rest)
    show ?thesis
    proof (cases "chunk_type first = Readme_window")
      case True
      with h Inr Cons have "cs = map (\<lambda>c. c\<lparr>chunk_type := Readme_hybrid, section_index := Some 0\<rparr>) sem"
        by (simp add: hybrid_chunking_def)
      with c sem show ?thesis by auto
    next
      case False
      with h Inr Cons obtain st where
        loop: "hybrid_loop p r (enumerate 0 sem) ([], False) = Inr st"
        and cs: "cs = fst st \<or> cs = fst st @ [forced_hybrid_chunk r first]"
        by (auto simp: hybrid_chunking_def split: sum.splits if_splits)
      have "\<forall>ic \<in> set (enumerate 0 sem). prefix (repo_header r) (content (snd ic))"
        using sem by (auto simp: in_set_enumerate_eq)
      from hybrid_loop_prefix [OF nl this _ loop]
      have a: "\<forall>c \<in> set (fst st). prefix (repo_header r) (content c)" by simp
      from sem [of first] Cons have "prefix (repo_header r) (content (forced_hybrid_chunk r first))"
        by (simp add: forced_hybrid_chunk_def)
      with a cs c show ?thesis by auto
    qed
  qed
qed

lemma process_readme_prefix:
  assumes "chunk_strategy p = ''semantic'' \<or> chunk_strategy p = ''sliding''
           \<or> CHR 0x0A \<notin> set (full_name r)"
    and "process_readme p render doc r = Inr cs" and "c \<in> set cs"
  shows "prefix (repo_header r) (content c)"
proof -
  let ?clean = "clean_content render
      (if max_readme_size p < int (length doc) then py_slice doc 0 (max_readme_size p) else doc)"
  consider (sem) "chunk_strategy p = ''semantic''"
    | (sl) "chunk_strategy p \<noteq> ''semantic''" "chunk_strategy p = ''sliding''"
    | (hy) "chunk_strategy p \<noteq> ''semantic''" "chunk_strategy p \<noteq> ''sliding''" by blast
  then show ?thesis
  proof cases
    case sem
    with assms(2) have "semantic_chunking p ?clean r = Inr cs" by (simp add: process_readme_def Let_def)
    from semantic_chunking_prefix [OF this assms(3)] show ?thesis .
  next
    case sl
    with assms(2) have "sliding_window_chunking p ?clean r = Inr cs" by (simp add: process_readme_def Let_def)
    from sliding_window_chunking_type [OF this assms(3)] show ?thesis by simp
  next
    case hy
    with assms(1) have nl: "CHR 0x0A \<notin> set (full_name r)" by simp
    from hy assms(2) have "hybrid_chunking p ?clean r = Inr cs" by (simp add: process_readme_def Let_def)
    from hybrid_chunking_prefix [OF nl this assms(3)] show ?thesis .
  qed
qed

lemma process_description_content:
  assumes "process_description r = Some c"
  shows "content c \<noteq> []
       \<and> prefix (''Repository: '' @ full_name r @ [CHR 0x0A] @ ''Description: '') (content c)
       \<and> \<not> prefix (repo_header r) (content c)"
proof -
  from assms obtain d where
    "content c = ''Repository: '' @ full_name r @ [CHR 0x0A] @ ''Description: '' @ d"
    by (auto simp: process_description_def split: option.splits if_splits)
  then show ?thesis by (simp add: repo_header_def)
qed

lemma split_nn_acc_nonempty: "split_nn_acc cur s \<noteq> []"
  by (induction cur s rule: split_nn_acc.induct) simp_all

lemma hybrid_loop_total:
  "max_chunk_size p \<noteq> chunk_overlap p \<Longrightarrow> \<exists>st'. hybrid_loop p r ics st = Inr st'"
proof (induction ics arbitrary: st)
  case Nil
  show ?case by simp
next
  case (Cons ic rest)
  obtain ctx pieces where sp: "split_nn (content (snd ic)) = ctx # pieces"
    using split_nn_acc_nonempty [of "[]" "content (snd ic)"]
    by (cases "split_nn (content (snd ic))") (auto simp: split_nn_def)
  from sliding_windows_total [OF Cons.prems]
  obtain ws where ws: "sliding_windows p (py_split (py_join [CHR 0x0A, CHR 0x0A] pieces)) = Inr ws"
    by blast
  from Cons.IH [OF Cons.prems] sp ws show ?case by simp
qed

lemma process_readme_total:
  assumes "max_chunk_size p \<noteq> chunk_overlap p"
  shows "\<exists>cs. process_readme p render doc r = Inr cs"
proof -
  have sl: "\<exists>cs. sliding_window_chunking p d r = Inr cs" for d
    by (rule sliding_window_chunking_total [OF assms])
  have sem: "\<exists>cs. semantic_chunking p d r = Inr cs" for d
    using sl [of d] by (cases "findall_headers d = []") (simp_all add: semantic_headerless semantic_headers)
  have hy: "\<exists>cs. hybrid_chunking p d r = Inr cs" for d
  proof -
    from sem obtain s where s: "semantic_chunking p d r = Inr s" by blast
    from hybrid_loop_total [OF assms] obtain st where
      "hybrid_loop p r (enumerate 0 s) ([], False) = Inr st" by blast
    with s show ?thesis by (simp add: hybrid_chunking_def split: list.splits)
  qed
  from sl sem hy show ?thesis by (simp add: process_readme_def Let_def)
qed

text \<open>
  Claim C3, as the code has it. Every chunk that \<^verbatim>\<open>process_readme\<close> returns, under any
  of the three strategies, has a non-empty content that begins with
  \<^verbatim>\<open>"Repository: {full_name}"\<close> followed by two line feeds; for the hybrid strategy this
  needs a full name without line feed. The chunk of \<^verbatim>\<open>process_description\<close> has a
  non-empty content that begins with \<^verbatim>\<open>"Repository: {full_name}"\<close>, ONE line feed and
  \<^verbatim>\<open>"Description: "\<close>, and so never begins with the context line of the README chunks.
\<close>

theorem chunk_content_prefix:
  assumes "chunk_strategy p = ''semantic'' \<or> chunk_strategy p = ''sliding''
           \<or> CHR 0x0A \<notin> set (full_name r)"
  shows "(\<forall>cs. process_readme p render doc r = Inr cs \<longrightarrow>
            (\<forall>c \<in> set cs. content c \<noteq> [] \<and> prefix (repo_header r) (content c)))
       \<and> (\<forall>c. process_description r = Some c \<longrightarrow>
            content c \<noteq> []
            \<and> prefix (''Repository: '' @ full_name r @ [CHR 0x0A] @ ''Description: '') (content c)
            \<and> \<not> prefix (repo_header r) (content c))"
  using process_readme_prefix [OF assms] repo_header_prefix_nonempty process_description_content
  by blast

theorem chunk_content_prefix_witness:
  "(chunk_strategy \<lparr>max_readme_size = 500000, chunk_strategy = ''hybrid'', max_chunk_size = 100, chunk_overlap = 20\<rparr> = ''semantic''
    \<or> chunk_strategy \<lparr>max_readme_size = 500000, chunk_strategy = ''hybrid'', max_chunk_size = 100, chunk_overlap = 20\<rparr> = ''sliding''
    \<or> CHR 0x0A \<notin> set (full_name \<lparr>repo_ident = 7, full_name = ''u/r'', description = Some ''A test''\<rparr>))
   \<and> (\<exists>cs. process_readme \<lparr>max_readme_size = 500000, chunk_strategy = ''hybrid'', max_chunk_size = 100, chunk_overlap = 20\<rparr>
              (\<lambda>s. s) ''# Install run it'' \<lparr>repo_ident = 7, full_name = ''u/r'', description = Some ''A test''\<rparr> = Inr cs
         \<and> cs \<noteq> []
         \<and> (\<forall>c \<in> set cs. content c \<noteq> []
               \<and> prefix (repo_header \<lparr>repo_ident = 7, full_name = ''u/r'', description = Some ''A test''\<rparr>) (content c)))
   \<and> (\<exists>c. process_description \<lparr>repo_ident = 7, full_name = ''u/r'', description = Some ''A test''\<rparr> = Some c
         \<and> content c \<noteq> []
         \<and> prefix ''Repository: u/r\<newline>Description: '' (content c)
         \<and> \<not> prefix (repo_header \<lparr>repo_ident = 7, full_name = ''u/r'', description = Some ''A test''\<rparr>) (content c))"
proof -
  let ?p = "\<lparr>max_readme_size = 500000, chunk_strategy = ''hybrid'', max_chunk_size = 100, chunk_overlap = 20\<rparr>"
  let ?r = "\<lparr>repo_ident = 7, full_name = ''u/r'', description = Some ''A test''\<rparr>"
  have hyp: "chunk_strategy ?p = ''semantic'' \<or> chunk_strategy ?p = ''sliding''
             \<or> CHR 0x0A \<notin> set (full_name ?r)" by simp
  have "(case process_readme ?p (\<lambda>s. s) ''# Install run it'' ?r of Inl e \<Rightarrow> False | Inr cs \<Rightarrow> cs \<noteq> [])"
    by code_simp
  then obtain cs where e: "process_readme ?p (\<lambda>s. s) ''# Install run it'' ?r = Inr cs" and n: "cs \<noteq> []"
    by (auto split: sum.splits)
  have "process_description ?r \<noteq> None" by code_simp
  then obtain c where d: "process_description ?r = Some c" by auto
  from chunk_content_prefix [OF hyp, of "\<lambda>s. s" "''# Install run it''"] e n d hyp
  show ?thesis by auto
qed

text \<open>
  The claim as stated includes the description chunk, and fails on it: for the repository
  \<^verbatim>\<open>u/r\<close> with the description \<^verbatim>\<open>A test\<close> the content is
  \<^verbatim>\<open>"Repository: u/r\nDescription: A test"\<close>, with one line feed after the name.
\<close>

theorem description_chunk_counterexample:
  "process_description \<lparr>repo_ident = 7, full_name = ''u/r'', description = Some ''A test''\<rparr>
     = Some \<lparr>chunk_id = ''7-description'', repo_id = 7, repo_name = ''u/r'',
             content = ''Repository: u/r\<newline>Description: A test'',
             chunk_type = Description, section_index = None, window_index = None\<rparr>
   \<and> \<not> prefix (repo_header \<lparr>repo_ident = 7, full_name = ''u/r'', description = Some ''A test''\<rparr>)
                ''Repository: u/r\<newline>Description: A test''"
  by code_simp

text \<open>
  The condition on the full name is needed for the hybrid strategy: with a full name that
  contains two line feeds in a row, the repository context cut off by
  \<^verbatim>\<open>split("\n\n")[0]\<close> is only the part of the context line before them.
\<close>

lemma hybrid_full_name_line_feeds:
  "process_readme \<lparr>max_readme_size = 500000, chunk_strategy = ''hybrid'', max_chunk_size = 1, chunk_overlap = 0\<rparr>
     (\<lambda>s. s) ''# a'' \<lparr>repo_ident = 7, full_name = ''x\<newline>\<newline>y z'', description = None\<rparr>
   = Inr [\<lparr>chunk_id = ''7-0-0'', repo_id = 7, repo_name = ''x\<newline>\<newline>y z'', content = ''Repository: x\<newline>\<newline>y'',
            chunk_type = Readme_hybrid, section_index = Some 0, window_index = Some 0\<rparr>,
          \<lparr>chunk_id = ''7-0-1'', repo_id = 7, repo_name = ''x\<newline>\<newline>y z'', content = ''Repository: x\<newline>\<newline>z'',
            chunk_type = Readme_hybrid, section_index = Some 0, window_index = Some 1\<rparr>]
   \<and> \<not> prefix (repo_header \<lparr>repo_ident = 7, full_name = ''x\<newline>\<newline>y z'', description = None\<rparr>)
                ''Repository: x\<newline>\<newline>y''"
  by code_simp

section \<open>Properties of the filters\<close>









text \<open>The same filter excludes a result whose record has the field with a value below the
  minimum.\<close>

lemma filter_present_field_applies:
  "apply_filters [\<lparr>r_id = ''a'', r_score = 1, r_text = ''t'',
                    r_repository = [(''id'', VInt 1), (''stargazers_count'', VInt 5)],
                    r_chunk_type = ''description'', r_neural_score = None, r_keyword_score = None\<rparr>]
        [(''stargazers_count'', Range [(''min'', VInt 100)])]
      = Inr []"
  by (simp add: check_field_def)

end
